theory Spec2Isabelle
  imports Main
begin

section \<open>The deferred-callback scheduler of \<^verbatim>\<open>src/core/util/next-tick.ts\<close>\<close>

subsection \<open>Values, callbacks and the host environment\<close>

text \<open>
  A context value \<^verbatim>\<open>ctx?: object\<close>: either absent (\<^verbatim>\<open>undefined\<close>) or an object,
  identified by a number. What the module does with a context is hand it on, and the
  one receiver that looks into it is the resolve function of a promise, which reads
  its \<^verbatim>\<open>then\<close> property. So an object is one of three kinds: \<open>Obj\<close>, whose
  \<^verbatim>\<open>then\<close> is not callable (the usual case, absent); \<open>Thenable\<close>, whose
  \<^verbatim>\<open>then\<close> is a function; and \<open>BadThen n e\<close>, where reading \<^verbatim>\<open>then\<close> throws \<open>e\<close>.
\<close>

datatype val = Undefined | Obj nat | Thenable nat | BadThen nat nat

text \<open>
  A callback is code of the caller. What it can do to the scheduler is: be invoked,
  call \<^verbatim>\<open>nextTick\<close> again (the queue and the flag are private to the module), and
  throw. A callback is therefore a name and a body, the body a sequence of nested
  \<^verbatim>\<open>nextTick\<close> calls that a \<^verbatim>\<open>throw\<close> cuts short. The thrown value is a number.
\<close>

datatype cb = Cb (cb_id: nat) (cb_body: "stmt list")
  and stmt = Throw nat | NextTick "cb option" val

text \<open>
  A global of the host that the module tests with \<^verbatim>\<open>typeof X !== 'undefined'\<close>,
  \<^verbatim>\<open>isNative(X)\<close> and \<^verbatim>\<open>X.toString()\<close>. \<^verbatim>\<open>isNative\<close> is imported from
  \<^verbatim>\<open>./env\<close>; its answer for the global is a field of the global here.
\<close>

record ctor =
  native :: bool
  toString :: string

record env =
  env_Promise :: "ctor option"
  env_MutationObserver :: "ctor option"
  env_setImmediate :: "ctor option"
  isIE :: bool
  isIOS :: bool

definition isNative :: "ctor \<Rightarrow> bool" where
  "isNative c = native c"

subsection \<open>The module's state\<close>

datatype strategy = UsePromise | UseMutationObserver | UseSetImmediate | UseSetTimeout

text \<open>
  The closure that \<^verbatim>\<open>nextTick\<close> pushes captures \<^verbatim>\<open>cb\<close>, \<^verbatim>\<open>ctx\<close> and the variable
  \<^verbatim>\<open>_resolve\<close> of that call. The variable is a cell of the store \<open>resolve_var\<close>,
  addressed by the number of the call (\<open>t_scope\<close>).
\<close>

record task =
  t_cb :: "cb option"
  t_ctx :: val
  t_scope :: nat

text \<open>
  A promise is pending, fulfilled with a value or rejected with an error. A pending
  promise whose resolve function was called with a thenable is not settled: it is
  locked to the thenable and takes whatever outcome the thenable later gives it
  (\<open>Following\<close>).
\<close>

datatype pstate = Pending | Following val | Fulfilled val | Rejected nat

text \<open>
  What the module calls, in the order it calls it: \<open>TimerFunc\<close> is \<^verbatim>\<open>timerFunc()\<close>,
  \<open>RunTask sc\<close> the call \<^verbatim>\<open>copies[i]()\<close> of the closure that call number \<open>sc\<close> of
  \<^verbatim>\<open>nextTick\<close> pushed, \<open>Invoked n ctx\<close> the call \<^verbatim>\<open>cb.call(ctx)\<close> of callback \<open>n\<close>,
  \<open>Reported e ctx tag\<close> the call \<^verbatim>\<open>handleError(e, ctx, tag)\<close> and \<open>Resolved p ctx\<close> the
  call \<^verbatim>\<open>_resolve(ctx)\<close> of the resolve function of promise \<open>p\<close>.
\<close>

datatype event =
    TimerFunc
  | RunTask nat
  | Invoked nat val
  | Reported nat val string
  | Resolved nat val

text \<open>
  \<open>callbacks\<close>, \<open>pending\<close>, \<open>timerFunc\<close> and \<open>isUsingMicroTask\<close> are the module's
  variables; \<open>counter\<close> and \<open>textNode\<close> those of the MutationObserver branch.
  \<open>outstanding\<close> counts the invocations of \<^verbatim>\<open>flushCallbacks\<close> the host has been asked
  for and has not yet made, \<open>noop_timers\<close> the empty timers set on iOS, and
  \<open>thenable_jobs\<close> the jobs the host has queued to call the \<^verbatim>\<open>then\<close> of a thenable
  a promise was resolved with.
\<close>

record state =
  host :: env
  isUsingMicroTask :: bool
  callbacks :: "task list"
  pending :: bool
  timerFunc :: strategy
  counter :: nat
  textNode :: string
  next_scope :: nat
  resolve_var :: "nat \<Rightarrow> nat option"
  promises :: "pstate list"
  outstanding :: nat
  noop_timers :: nat
  thenable_jobs :: "(nat \<times> val) list"
  trace :: "event list"

subsection \<open>Module initialisation: the choice of \<^verbatim>\<open>timerFunc\<close>\<close>

fun String_of :: "nat \<Rightarrow> string" where
  "String_of n =
     (if n < 10 then [char_of (48 + n)]
      else String_of (n div 10) @ [char_of (48 + n mod 10)])"

text \<open>
  The module's variables as their declarations leave them (lines 14 to 19), with
  \<^verbatim>\<open>timerFunc\<close>, declared without a value on line 50, bound to the function \<open>tf\<close> that
  the branch taken assigns. No call, no promise and no event has happened yet.
\<close>

definition base_state :: "env \<Rightarrow> strategy \<Rightarrow> state" where
  "base_state e tf =
     \<lparr>host = e, isUsingMicroTask = False, callbacks = [], pending = False,
      timerFunc = tf, counter = 0, textNode = [], next_scope = 0,
      resolve_var = (\<lambda>_. None), promises = [], outstanding = 0, noop_timers = 0,
      thenable_jobs = [], trace = []\<rparr>"

text \<open>
  The chain of tests of lines 66 to 130, in its order. \<open>&&\<close> is short-circuit: a global
  is asked for \<^verbatim>\<open>isNative\<close> or \<^verbatim>\<open>toString\<close> only once \<^verbatim>\<open>typeof\<close> has found it.
\<close>

definition init :: "env \<Rightarrow> state" where
  "init e =
     (if env_Promise e \<noteq> None \<and> isNative (the (env_Promise e))
      then (base_state e UsePromise)\<lparr>isUsingMicroTask := True\<rparr>
      else if \<not> isIE e \<and> env_MutationObserver e \<noteq> None \<and>
              (isNative (the (env_MutationObserver e)) \<or>
               toString (the (env_MutationObserver e)) = ''[object MutationObserverConstructor]'')
      then (base_state e UseMutationObserver)
             \<lparr>counter := 1, textNode := String_of 1, isUsingMicroTask := True\<rparr>
      else if env_setImmediate e \<noteq> None \<and> isNative (the (env_setImmediate e))
      then base_state e UseSetImmediate
      else base_state e UseSetTimeout)"

text \<open>
  Modelled from the spec: the host's primitives (\<^verbatim>\<open>Promise.then\<close>, the mutation
  observer, \<^verbatim>\<open>setImmediate\<close>, \<^verbatim>\<open>setTimeout\<close>) are not code of the repository; each
  request is one future invocation of the operation handed over.
\<close>

definition schedule_flush :: "state \<Rightarrow> state" where
  "schedule_flush s = s\<lparr>outstanding := outstanding s + 1\<rparr>"

definition call_timerFunc :: "state \<Rightarrow> state" where
  "call_timerFunc s =
     (let s0 = s\<lparr>trace := trace s @ [TimerFunc]\<rparr> in
      case timerFunc s0 of
        UsePromise \<Rightarrow>
          (let s1 = schedule_flush s0 in
           if isIOS (host s1) then s1\<lparr>noop_timers := noop_timers s1 + 1\<rparr> else s1)
      | UseMutationObserver \<Rightarrow>
          (let s1 = s0\<lparr>counter := (counter s0 + 1) mod 2\<rparr>;
               s2 = s1\<lparr>textNode := String_of (counter s1)\<rparr>
           in schedule_flush s2)
      | UseSetImmediate \<Rightarrow> schedule_flush s0
      | UseSetTimeout \<Rightarrow> schedule_flush s0)"

subsection \<open>\<^verbatim>\<open>nextTick\<close>\<close>

datatype ret = RetUndefined | RetPromise nat

definition nextTick :: "cb option \<Rightarrow> val \<Rightarrow> state \<Rightarrow> ret \<times> state" where
  "nextTick cb ctx s =
     (let sc = next_scope s;
          s1 = s\<lparr>next_scope := sc + 1, resolve_var := (resolve_var s)(sc := None)\<rparr>;
          s2 = s1\<lparr>callbacks := callbacks s1 @ [\<lparr>t_cb = cb, t_ctx = ctx, t_scope = sc\<rparr>]\<rparr>;
          s3 = (if \<not> pending s2 then call_timerFunc (s2\<lparr>pending := True\<rparr>) else s2)
      in if cb = None \<and> env_Promise (host s3) \<noteq> None
         then (let p = length (promises s3)
               in (RetPromise p,
                   s3\<lparr>promises := promises s3 @ [Pending],
                      resolve_var := (resolve_var s3)(sc := Some p)\<rparr>))
         else (RetUndefined, s3))"

subsection \<open>The pushed closure, and \<^verbatim>\<open>flushCallbacks\<close>\<close>

fun exec_stmts :: "stmt list \<Rightarrow> state \<Rightarrow> nat option \<times> state" where
  "exec_stmts [] s = (None, s)"
| "exec_stmts (Throw e # r) s = (Some e, s)"
| "exec_stmts (NextTick c v # r) s = exec_stmts r (snd (nextTick c v s))"

definition call_cb :: "cb \<Rightarrow> val \<Rightarrow> state \<Rightarrow> nat option \<times> state" where
  "call_cb c ctx s = exec_stmts (cb_body c) (s\<lparr>trace := trace s @ [Invoked (cb_id c) ctx]\<rparr>)"

text \<open>
  Modelled from the spec: \<^verbatim>\<open>handleError\<close> is imported from \<^verbatim>\<open>./error\<close>, which is not
  among the sources; it is the outbound \<^verbatim>\<open>report(error, context, originTag)\<close>.
\<close>

definition handleError :: "nat \<Rightarrow> val \<Rightarrow> string \<Rightarrow> state \<Rightarrow> state" where
  "handleError e ctx tag s = s\<lparr>trace := trace s @ [Reported e ctx tag]\<rparr>"

text \<open>
  The resolve function of promise \<open>p\<close> is the host's (ECMAScript, Promise Resolve
  Functions), not code of the repository. Called on a promise that is no longer
  pending, or was resolved before, it does nothing. Otherwise a value that is not an
  object, or an object whose \<^verbatim>\<open>then\<close> is not callable, fulfils the promise; an
  error thrown by reading \<^verbatim>\<open>then\<close> rejects it; and for a thenable the host queues
  a job that will call its \<^verbatim>\<open>then\<close>, after the code now running has returned, and
  the promise stays unsettled.
\<close>

fun resolution :: "val \<Rightarrow> pstate" where
  "resolution Undefined = Fulfilled Undefined"
| "resolution (Obj n) = Fulfilled (Obj n)"
| "resolution (Thenable n) = Following (Thenable n)"
| "resolution (BadThen n e) = Rejected e"

fun is_thenable :: "val \<Rightarrow> bool" where
  "is_thenable (Thenable n) = True"
| "is_thenable v = False"

definition resolve :: "nat \<Rightarrow> val \<Rightarrow> state \<Rightarrow> state" where
  "resolve p v s =
     (let s0 = s\<lparr>trace := trace s @ [Resolved p v]\<rparr> in
      if p < length (promises s0) \<and> promises s0 ! p = Pending
      then (let s1 = s0\<lparr>promises := (promises s0)[p := resolution v]\<rparr>
            in if is_thenable v then s1\<lparr>thenable_jobs := thenable_jobs s1 @ [(p, v)]\<rparr> else s1)
      else s0)"

definition run_task :: "task \<Rightarrow> state \<Rightarrow> state" where
  "run_task t s =
     (let s0 = s\<lparr>trace := trace s @ [RunTask (t_scope t)]\<rparr> in
      case t_cb t of
        Some c \<Rightarrow>
          (case call_cb c (t_ctx t) s0 of
             (None, s1) \<Rightarrow> s1
           | (Some e, s1) \<Rightarrow> handleError e (t_ctx t) ''nextTick'' s1)
      | None \<Rightarrow>
          (case resolve_var s0 (t_scope t) of
             Some p \<Rightarrow> resolve p (t_ctx t) s0
           | None \<Rightarrow> s0))"

function for_loop :: "nat \<Rightarrow> task list \<Rightarrow> state \<Rightarrow> state" where
  "for_loop i copies s =
     (if i < length copies then for_loop (i + 1) copies (run_task (copies ! i) s) else s)"
  by pat_completeness auto
termination
  by (relation "measure (\<lambda>(i, copies, s). length copies - i)") auto

definition detach :: "state \<Rightarrow> task list \<times> state" where
  "detach s =
     (let s1 = s\<lparr>pending := False\<rparr>;
          copies = callbacks s1;
          s2 = s1\<lparr>callbacks := []\<rparr>
      in (copies, s2))"

definition flushCallbacks :: "state \<Rightarrow> state" where
  "flushCallbacks s = (case detach s of (copies, s2) \<Rightarrow> for_loop 0 copies s2)"

subsection \<open>The strategy as the spec words it\<close>

definition promise_available :: "env \<Rightarrow> bool" where
  "promise_available e = (case env_Promise e of None \<Rightarrow> False | Some c \<Rightarrow> native c)"

definition mutation_observer_available :: "env \<Rightarrow> bool" where
  "mutation_observer_available e =
     (case env_MutationObserver e of
        None \<Rightarrow> False
      | Some c \<Rightarrow> \<not> isIE e \<and>
          (native c \<or> toString c = ''[object MutationObserverConstructor]''))"

definition setImmediate_available :: "env \<Rightarrow> bool" where
  "setImmediate_available e = (case env_setImmediate e of None \<Rightarrow> False | Some c \<Rightarrow> native c)"

definition preference :: "env \<Rightarrow> (bool \<times> strategy) list" where
  "preference e =
     [(promise_available e, UsePromise),
      (mutation_observer_available e, UseMutationObserver),
      (setImmediate_available e, UseSetImmediate),
      (True, UseSetTimeout)]"

fun first_available :: "(bool \<times> strategy) list \<Rightarrow> strategy option" where
  "first_available [] = None"
| "first_available ((b, st) # r) = (if b then Some st else first_available r)"

definition microtask_granular :: "strategy \<Rightarrow> bool" where
  "microtask_granular st = (st = UsePromise \<or> st = UseMutationObserver)"

subsection \<open>The host's side, and what a run is observed to do\<close>

text \<open>
  Modelled from the spec: the host calls \<^verbatim>\<open>flushCallbacks\<close> once for each
  invocation it was asked for, and never otherwise. An input is a call of
  \<^verbatim>\<open>nextTick\<close> from outside, or the host making one outstanding invocation.
\<close>

datatype input = Call "cb option" val | Deliver

definition deliver :: "state \<Rightarrow> state" where
  "deliver s =
     (if outstanding s = 0 then s
      else flushCallbacks (s\<lparr>outstanding := outstanding s - 1\<rparr>))"

fun step :: "input \<Rightarrow> state \<Rightarrow> state" where
  "step (Call c v) s = snd (nextTick c v s)"
| "step Deliver s = deliver s"

fun run :: "input list \<Rightarrow> state \<Rightarrow> state" where
  "run [] s = s"
| "run (i # r) s = run r (step i s)"

text \<open>
  A turn is a sequence of calls of \<^verbatim>\<open>nextTick\<close> with no flush in between; its tasks
  are numbered from \<open>next_scope\<close> on, in call order (\<open>new_tasks\<close>).
\<close>

fun turn :: "(cb option \<times> val) list \<Rightarrow> state \<Rightarrow> state" where
  "turn [] s = s"
| "turn ((c, v) # r) s = turn r (snd (nextTick c v s))"

text \<open>
  What a body does when run: the calls of \<^verbatim>\<open>nextTick\<close> it makes before it throws or
  ends, and the value it throws, if any.
\<close>

fun calls_of :: "stmt list \<Rightarrow> (cb option \<times> val) list" where
  "calls_of [] = []"
| "calls_of (Throw e # r) = []"
| "calls_of (NextTick c v # r) = (c, v) # calls_of r"

fun thrown :: "stmt list \<Rightarrow> nat option" where
  "thrown [] = None"
| "thrown (Throw e # r) = Some e"
| "thrown (NextTick c v # r) = thrown r"

fun new_tasks :: "nat \<Rightarrow> (cb option \<times> val) list \<Rightarrow> task list" where
  "new_tasks n [] = []"
| "new_tasks n ((c, v) # r) = \<lparr>t_cb = c, t_ctx = v, t_scope = n\<rparr> # new_tasks (Suc n) r"

text \<open>
  What calling one queued task comes to: the calls of \<^verbatim>\<open>nextTick\<close> its callback makes,
  the invocation of the callback with the task's context, and the report of what the
  callback throws.
\<close>

definition task_calls :: "task \<Rightarrow> (cb option \<times> val) list" where
  "task_calls t = (case t_cb t of Some c \<Rightarrow> calls_of (cb_body c) | None \<Rightarrow> [])"

definition task_invocation :: "task \<Rightarrow> (nat \<times> val) list" where
  "task_invocation t = (case t_cb t of Some c \<Rightarrow> [(cb_id c, t_ctx t)] | None \<Rightarrow> [])"

definition task_failure :: "task \<Rightarrow> (nat \<times> val \<times> string) list" where
  "task_failure t =
     (case t_cb t of
        Some c \<Rightarrow> (case thrown (cb_body c) of Some e \<Rightarrow> [(e, t_ctx t, ''nextTick'')] | None \<Rightarrow> [])
      | None \<Rightarrow> [])"

text \<open>The tasks of a list called one after another, first to last.\<close>

fun run_tasks :: "task list \<Rightarrow> state \<Rightarrow> state" where
  "run_tasks [] s = s"
| "run_tasks (t # ts) s = run_tasks ts (run_task t s)"

text \<open>
  What a trace shows: the closures called, the callbacks invoked with their contexts,
  the errors reported, and how often the trigger was called.
\<close>

definition ran :: "event list \<Rightarrow> nat list" where
  "ran tr = concat (map (\<lambda>ev. case ev of RunTask sc \<Rightarrow> [sc] | _ \<Rightarrow> []) tr)"

definition invoked :: "event list \<Rightarrow> (nat \<times> val) list" where
  "invoked tr = concat (map (\<lambda>ev. case ev of Invoked n v \<Rightarrow> [(n, v)] | _ \<Rightarrow> []) tr)"

definition reported :: "event list \<Rightarrow> (nat \<times> val \<times> string) list" where
  "reported tr = concat (map (\<lambda>ev. case ev of Reported e v tag \<Rightarrow> [(e, v, tag)] | _ \<Rightarrow> []) tr)"

definition triggers :: "event list \<Rightarrow> nat" where
  "triggers tr = length (filter (\<lambda>ev. ev = TimerFunc) tr)"

subsection \<open>Three hosts and six callbacks\<close>

text \<open>
  A current browser, PhantomJS (a Promise polyfill and the constructor object of its
  MutationObserver), and a host with nothing but \<^verbatim>\<open>setTimeout\<close>; then the callbacks
  of the scenarios of the specification, the last one a callback that itself calls
  \<^verbatim>\<open>nextTick\<close> without a callback.
\<close>

definition env_modern :: env where
  "env_modern =
     \<lparr>env_Promise = Some \<lparr>native = True, toString = ''function Promise() { [native code] }''\<rparr>,
      env_MutationObserver = Some \<lparr>native = True, toString = ''function MutationObserver() { [native code] }''\<rparr>,
      env_setImmediate = None, isIE = False, isIOS = False\<rparr>"

definition env_phantom :: env where
  "env_phantom =
     \<lparr>env_Promise = Some \<lparr>native = False, toString = ''function Promise(fn) { }''\<rparr>,
      env_MutationObserver = Some \<lparr>native = False, toString = ''[object MutationObserverConstructor]''\<rparr>,
      env_setImmediate = None, isIE = False, isIOS = False\<rparr>"

definition env_bare :: env where
  "env_bare =
     \<lparr>env_Promise = None, env_MutationObserver = None, env_setImmediate = None,
      isIE = False, isIOS = False\<rparr>"

definition fnA :: cb where "fnA = Cb 1 []"

definition fnB :: cb where "fnB = Cb 2 []"

definition fnC :: cb where "fnC = Cb 3 []"

definition fnThatThrows :: cb where "fnThatThrows = Cb 4 [Throw 7]"

definition fnA_calls_C :: cb where "fnA_calls_C = Cb 1 [NextTick (Some fnC) Undefined]"


subsection \<open>Invariants of the reachable states\<close>

text \<open>
  The flag is true exactly while the queue is not empty, and then one invocation of
  \<^verbatim>\<open>flushCallbacks\<close> is outstanding. Every closure queued or called so far comes from
  an earlier call, and every resolve function held by a closure belongs to a promise
  that exists.
\<close>

definition sched_inv :: "state \<Rightarrow> bool" where
  "sched_inv s =
     (outstanding s = (if pending s then 1 else 0) \<and> pending s = (callbacks s \<noteq> []))"

definition scope_inv :: "state \<Rightarrow> bool" where
  "scope_inv s =
     ((\<forall>t \<in> set (callbacks s). t_scope t < next_scope s) \<and>
      (\<forall>sc \<in> set (ran (trace s)). sc < next_scope s))"

definition promise_inv :: "state \<Rightarrow> bool" where
  "promise_inv s = (\<forall>sc p. resolve_var s sc = Some p \<longrightarrow> p < length (promises s))"

text \<open>
  Promise \<open>p\<close> is pending and only the closure of call \<open>sc0\<close> holds its resolve
  function; promise \<open>p\<close> has left the pending state for \<open>st\<close>.
\<close>

definition awaiting :: "nat \<Rightarrow> nat \<Rightarrow> state \<Rightarrow> bool" where
  "awaiting sc0 p s =
     (p < length (promises s) \<and> promises s ! p = Pending \<and> resolve_var s sc0 = Some p \<and>
      (\<forall>sc. resolve_var s sc = Some p \<longrightarrow> sc = sc0) \<and> sc0 < next_scope s)"

definition settled :: "nat \<Rightarrow> pstate \<Rightarrow> state \<Rightarrow> bool" where
  "settled p st s = (p < length (promises s) \<and> promises s ! p = st \<and> st \<noteq> Pending)"

text \<open>
  The queue holds each closure once, all from earlier calls, and with a Promise in the
  host every queued closure without a callback holds the resolve function of a promise
  that is still pending and that no other closure can resolve. While a flush calls the
  tasks \<open>ts\<close> left of its copy, this holds of the live queue, which has only closures
  of calls made since the copy was taken.
\<close>

definition queued_inv :: "state \<Rightarrow> bool" where
  "queued_inv s =
     (distinct (map t_scope (callbacks s)) \<and>
      (\<forall>t \<in> set (callbacks s). t_scope t < next_scope s) \<and>
      promise_inv s \<and>
      (env_Promise (host s) \<noteq> None \<longrightarrow>
       (\<forall>t \<in> set (callbacks s). t_cb t = None \<longrightarrow> (\<exists>p. awaiting (t_scope t) p s))))"


section \<open>Properties\<close>

subsection \<open>What one call of \<^verbatim>\<open>nextTick\<close> changes\<close>

lemma nextTick_callbacks [simp]:
  "callbacks (snd (nextTick c v s)) = callbacks s @ [\<lparr>t_cb = c, t_ctx = v, t_scope = next_scope s\<rparr>]"
  by (simp add: nextTick_def call_timerFunc_def schedule_flush_def Let_def split: strategy.splits)

lemma nextTick_pending [simp]: "pending (snd (nextTick c v s))"
  by (simp add: nextTick_def call_timerFunc_def schedule_flush_def Let_def split: strategy.splits)

lemma nextTick_next_scope [simp]: "next_scope (snd (nextTick c v s)) = Suc (next_scope s)"
  by (simp add: nextTick_def call_timerFunc_def schedule_flush_def Let_def split: strategy.splits)

lemma nextTick_trace [simp]:
  "trace (snd (nextTick c v s)) = trace s @ (if pending s then [] else [TimerFunc])"
  by (simp add: nextTick_def call_timerFunc_def schedule_flush_def Let_def split: strategy.splits)

lemma nextTick_outstanding [simp]:
  "outstanding (snd (nextTick c v s)) = outstanding s + (if pending s then 0 else 1)"
  by (simp add: nextTick_def call_timerFunc_def schedule_flush_def Let_def split: strategy.splits)

lemma nextTick_timerFunc [simp]: "timerFunc (snd (nextTick c v s)) = timerFunc s"
  by (simp add: nextTick_def call_timerFunc_def schedule_flush_def Let_def split: strategy.splits)

lemma nextTick_host [simp]: "host (snd (nextTick c v s)) = host s"
  by (simp add: nextTick_def call_timerFunc_def schedule_flush_def Let_def split: strategy.splits)

lemma nextTick_isUsingMicroTask [simp]:
  "isUsingMicroTask (snd (nextTick c v s)) = isUsingMicroTask s"
  by (simp add: nextTick_def call_timerFunc_def schedule_flush_def Let_def split: strategy.splits)

lemma nextTick_promises [simp]:
  "promises (snd (nextTick c v s)) =
     promises s @ (if c = None \<and> env_Promise (host s) \<noteq> None then [Pending] else [])"
  by (simp add: nextTick_def call_timerFunc_def schedule_flush_def Let_def split: strategy.splits)

lemma nextTick_resolve_var [simp]:
  "resolve_var (snd (nextTick c v s)) =
     (resolve_var s)(next_scope s :=
        if c = None \<and> env_Promise (host s) \<noteq> None then Some (length (promises s)) else None)"
  by (auto simp: nextTick_def call_timerFunc_def schedule_flush_def Let_def split: strategy.splits)

lemma nextTick_ret:
  "fst (nextTick c v s) =
     (if c = None \<and> env_Promise (host s) \<noteq> None then RetPromise (length (promises s))
      else RetUndefined)"
  by (simp add: nextTick_def call_timerFunc_def schedule_flush_def Let_def split: strategy.splits)

subsection \<open>The loop, a callback body, and the projections of a trace\<close>

declare for_loop.simps [simp del]

lemma for_loop_foldl: "for_loop i copies s = foldl (\<lambda>s t. run_task t s) s (drop i copies)"
proof (induction i copies s rule: for_loop.induct)
  case (1 i copies s)
  show ?case
  proof (cases "i < length copies")
    case True
    then have "drop i copies = copies ! i # drop (Suc i) copies"
      by (simp add: Cons_nth_drop_Suc)
    with True 1 show ?thesis by (subst for_loop.simps) simp
  next
    case False
    then show ?thesis by (subst for_loop.simps) simp
  qed
qed

lemma exec_stmts_eq: "exec_stmts b s = (thrown b, turn (calls_of b) s)"
  by (induction b s rule: exec_stmts.induct) simp_all

lemma ran_simps [simp]:
  "ran [] = []" "ran (xs @ ys) = ran xs @ ran ys"
  "ran (TimerFunc # tr) = ran tr" "ran (RunTask sc # tr) = sc # ran tr"
  "ran (Invoked n v # tr) = ran tr" "ran (Reported e v tag # tr) = ran tr"
  "ran (Resolved p v # tr) = ran tr"
  by (simp_all add: ran_def)

lemma invoked_simps [simp]:
  "invoked [] = []" "invoked (xs @ ys) = invoked xs @ invoked ys"
  "invoked (TimerFunc # tr) = invoked tr" "invoked (RunTask sc # tr) = invoked tr"
  "invoked (Invoked n v # tr) = (n, v) # invoked tr" "invoked (Reported e v tag # tr) = invoked tr"
  "invoked (Resolved p v # tr) = invoked tr"
  by (simp_all add: invoked_def)

lemma reported_simps [simp]:
  "reported [] = []" "reported (xs @ ys) = reported xs @ reported ys"
  "reported (TimerFunc # tr) = reported tr" "reported (RunTask sc # tr) = reported tr"
  "reported (Invoked n v # tr) = reported tr"
  "reported (Reported e v tag # tr) = (e, v, tag) # reported tr"
  "reported (Resolved p v # tr) = reported tr"
  by (simp_all add: reported_def)

lemma triggers_simps [simp]:
  "triggers [] = 0" "triggers (xs @ ys) = triggers xs + triggers ys"
  "triggers (TimerFunc # tr) = Suc (triggers tr)" "triggers (RunTask sc # tr) = triggers tr"
  "triggers (Invoked n v # tr) = triggers tr" "triggers (Reported e v tag # tr) = triggers tr"
  "triggers (Resolved p v # tr) = triggers tr"
  by (simp_all add: triggers_def)

lemma new_tasks_append:
  "new_tasks n (xs @ ys) = new_tasks n xs @ new_tasks (n + length xs) ys"
  by (induction xs arbitrary: n) auto

lemma length_new_tasks [simp]: "length (new_tasks n cs) = length cs"
  by (induction cs arbitrary: n) auto

lemma new_tasks_Nil [simp]: "new_tasks n cs = [] \<longleftrightarrow> cs = []"
  by (cases cs) auto

lemma scope_new_tasks: "map t_scope (new_tasks n cs) = [n ..< n + length cs]"
proof (induction n cs rule: new_tasks.induct)
  case (1 n)
  show ?case by simp
next
  case (2 n c v r)
  have "[n ..< Suc n + length r] = n # [Suc n ..< Suc n + length r]"
    by (rule upt_conv_Cons) simp
  moreover have "n + length ((c, v) # r) = Suc n + length r"
    by simp
  ultimately show ?case
    using 2 by (simp only: new_tasks.simps list.map task.simps)
qed

subsection \<open>What a turn changes\<close>

lemma turn_callbacks: "callbacks (turn cs s) = callbacks s @ new_tasks (next_scope s) cs"
  by (induction cs s rule: turn.induct) auto

lemma turn_next_scope: "next_scope (turn cs s) = next_scope s + length cs"
  by (induction cs s rule: turn.induct) auto

lemma turn_pending: "pending (turn cs s) = (pending s \<or> cs \<noteq> [])"
  by (induction cs s rule: turn.induct) auto

lemma turn_trace:
  "trace (turn cs s) = trace s @ (if pending s \<or> cs = [] then [] else [TimerFunc])"
  by (induction cs s rule: turn.induct) auto

lemma turn_outstanding:
  "outstanding (turn cs s) = outstanding s + (if pending s \<or> cs = [] then 0 else 1)"
  by (induction cs s rule: turn.induct) auto

lemma turn_timerFunc: "timerFunc (turn cs s) = timerFunc s"
  by (induction cs s rule: turn.induct) auto


lemma turn_isUsingMicroTask: "isUsingMicroTask (turn cs s) = isUsingMicroTask s"
  by (induction cs s rule: turn.induct) auto

lemma turn_resolve_var_old:
  "sc < next_scope s \<Longrightarrow> resolve_var (turn cs s) sc = resolve_var s sc"
  by (induction cs s rule: turn.induct) auto

subsection \<open>What calling one task changes\<close>

lemma run_task_eq:
  "run_task t s =
     (case t_cb t of
        Some c \<Rightarrow>
          (let s1 = turn (task_calls t)
                      (s\<lparr>trace := trace s @ [RunTask (t_scope t), Invoked (cb_id c) (t_ctx t)]\<rparr>)
           in case thrown (cb_body c) of
                None \<Rightarrow> s1
              | Some e \<Rightarrow> s1\<lparr>trace := trace s1 @ [Reported e (t_ctx t) ''nextTick'']\<rparr>)
      | None \<Rightarrow>
          (case resolve_var s (t_scope t) of
             Some p \<Rightarrow> resolve p (t_ctx t) (s\<lparr>trace := trace s @ [RunTask (t_scope t)]\<rparr>)
           | None \<Rightarrow> s\<lparr>trace := trace s @ [RunTask (t_scope t)]\<rparr>))"
  by (simp add: run_task_def call_cb_def exec_stmts_eq handleError_def task_calls_def Let_def
           split: option.splits)

lemma run_task_callbacks:
  "callbacks (run_task t s) = callbacks s @ new_tasks (next_scope s) (task_calls t)"
  by (simp add: run_task_eq turn_callbacks resolve_def Let_def task_calls_def split: option.splits)

lemma run_task_next_scope: "next_scope (run_task t s) = next_scope s + length (task_calls t)"
  by (simp add: run_task_eq turn_next_scope resolve_def Let_def task_calls_def split: option.splits)

lemma run_task_pending: "pending (run_task t s) = (pending s \<or> task_calls t \<noteq> [])"
  by (simp add: run_task_eq turn_pending resolve_def Let_def task_calls_def split: option.splits)

lemma run_task_outstanding:
  "outstanding (run_task t s) =
     outstanding s + (if pending s \<or> task_calls t = [] then 0 else 1)"
  by (simp add: run_task_eq turn_outstanding resolve_def Let_def task_calls_def split: option.splits)

lemma run_task_timerFunc: "timerFunc (run_task t s) = timerFunc s"
  by (simp add: run_task_eq turn_timerFunc resolve_def Let_def split: option.splits)


lemma run_task_isUsingMicroTask: "isUsingMicroTask (run_task t s) = isUsingMicroTask s"
  by (simp add: run_task_eq turn_isUsingMicroTask resolve_def Let_def split: option.splits)

lemma run_task_ran: "ran (trace (run_task t s)) = ran (trace s) @ [t_scope t]"
  by (simp add: run_task_eq turn_trace resolve_def Let_def split: option.splits)

lemma run_task_invoked:
  "invoked (trace (run_task t s)) = invoked (trace s) @ task_invocation t"
  by (simp add: run_task_eq turn_trace resolve_def Let_def task_invocation_def split: option.splits)

lemma run_task_reported:
  "reported (trace (run_task t s)) = reported (trace s) @ task_failure t"
  by (simp add: run_task_eq turn_trace resolve_def Let_def task_failure_def split: option.splits)

lemma run_task_triggers:
  "triggers (trace (run_task t s)) =
     triggers (trace s) + (if pending s \<or> task_calls t = [] then 0 else 1)"
  by (simp add: run_task_eq turn_trace resolve_def Let_def task_calls_def split: option.splits)

subsection \<open>What a flush changes\<close>

lemma run_tasks_timerFunc: "timerFunc (run_tasks ts s) = timerFunc s"
  by (induction ts s rule: run_tasks.induct) (simp_all add: run_task_timerFunc)

lemma for_loop_run_tasks: "for_loop 0 copies s = run_tasks copies s"
proof -
  have "foldl (\<lambda>s t. run_task t s) s ts = run_tasks ts s" for ts
    by (induction ts arbitrary: s) simp_all
  then show ?thesis by (simp add: for_loop_foldl)
qed

lemma flushCallbacks_eq:
  "flushCallbacks s = run_tasks (callbacks s) (s\<lparr>pending := False, callbacks := []\<rparr>)"
  by (simp add: flushCallbacks_def detach_def for_loop_run_tasks)

lemma flushCallbacks_timerFunc: "timerFunc (flushCallbacks s) = timerFunc s"
  by (simp add: flushCallbacks_eq run_tasks_timerFunc)

lemma step_timerFunc: "timerFunc (step i s) = timerFunc s"
  by (cases i) (simp_all add: deliver_def flushCallbacks_timerFunc)

lemma run_timerFunc: "timerFunc (run ins s) = timerFunc s"
  by (induction ins s rule: run.induct) (simp_all add: step_timerFunc)

lemma run_tasks_isUsingMicroTask: "isUsingMicroTask (run_tasks ts s) = isUsingMicroTask s"
  by (induction ts s rule: run_tasks.induct) (simp_all add: run_task_isUsingMicroTask)

lemma step_isUsingMicroTask: "isUsingMicroTask (step i s) = isUsingMicroTask s"
  by (cases i) (simp_all add: deliver_def flushCallbacks_eq run_tasks_isUsingMicroTask)

lemma run_isUsingMicroTask: "isUsingMicroTask (run ins s) = isUsingMicroTask s"
  by (induction ins s rule: run.induct) (simp_all add: step_isUsingMicroTask)

lemma run_tasks_append: "run_tasks (xs @ ys) s = run_tasks ys (run_tasks xs s)"
  by (induction xs s rule: run_tasks.induct) simp_all

lemma run_tasks_next_scope:
  "next_scope (run_tasks ts s) = next_scope s + length (concat (map task_calls ts))"
  by (induction ts s rule: run_tasks.induct) (simp_all add: run_task_next_scope)

lemma run_tasks_callbacks:
  "callbacks (run_tasks ts s) =
     callbacks s @ new_tasks (next_scope s) (concat (map task_calls ts))"
  by (induction ts s rule: run_tasks.induct)
     (simp_all add: run_task_callbacks run_task_next_scope new_tasks_append)

lemma run_tasks_pending:
  "pending (run_tasks ts s) = (pending s \<or> concat (map task_calls ts) \<noteq> [])"
  by (induction ts s rule: run_tasks.induct) (auto simp: run_task_pending)

lemma run_tasks_ran: "ran (trace (run_tasks ts s)) = ran (trace s) @ map t_scope ts"
  by (induction ts s rule: run_tasks.induct) (simp_all add: run_task_ran)

lemma run_tasks_invoked:
  "invoked (trace (run_tasks ts s)) = invoked (trace s) @ concat (map task_invocation ts)"
  by (induction ts s rule: run_tasks.induct) (simp_all add: run_task_invoked)

lemma run_tasks_reported:
  "reported (trace (run_tasks ts s)) = reported (trace s) @ concat (map task_failure ts)"
  by (induction ts s rule: run_tasks.induct) (simp_all add: run_task_reported)

lemma run_tasks_triggers:
  "triggers (trace (run_tasks ts s)) =
     triggers (trace s) + (if pending s \<or> concat (map task_calls ts) = [] then 0 else 1)"
  by (induction ts s rule: run_tasks.induct) (auto simp: run_task_triggers run_task_pending)

lemma run_tasks_outstanding:
  "outstanding (run_tasks ts s) =
     outstanding s + (if pending s \<or> concat (map task_calls ts) = [] then 0 else 1)"
  by (induction ts s rule: run_tasks.induct) (auto simp: run_task_outstanding run_task_pending)


lemma foldl_run_tasks: "foldl (\<lambda>s t. run_task t s) s ts = run_tasks ts s"
  by (induction ts arbitrary: s) simp_all

subsection \<open>The invariants hold in every reachable state\<close>

lemma sched_inv_init: "sched_inv (init e)"
  by (simp add: sched_inv_def init_def base_state_def)

lemma scope_inv_init: "scope_inv (init e)"
  by (simp add: scope_inv_def init_def base_state_def)

lemma sched_inv_nextTick: "sched_inv s \<Longrightarrow> sched_inv (snd (nextTick c v s))"
  by (simp add: sched_inv_def)

lemma scope_inv_nextTick: "scope_inv s \<Longrightarrow> scope_inv (snd (nextTick c v s))"
  by (auto simp: scope_inv_def less_Suc_eq)

lemma deliver_eq:
  "deliver s =
     (if outstanding s = 0 then s
      else run_tasks (callbacks s)
             (s\<lparr>outstanding := outstanding s - 1, pending := False, callbacks := []\<rparr>))"
  by (simp add: deliver_def flushCallbacks_eq)

lemma sched_inv_deliver: "sched_inv s \<Longrightarrow> sched_inv (deliver s)"
  by (auto simp: sched_inv_def deliver_eq run_tasks_outstanding run_tasks_pending
        run_tasks_callbacks split: if_splits)

lemma set_scope_new_tasks:
  "t \<in> set (new_tasks n cs) \<Longrightarrow> n \<le> t_scope t \<and> t_scope t < n + length cs"
proof -
  assume "t \<in> set (new_tasks n cs)"
  then have "t_scope t \<in> set (map t_scope (new_tasks n cs))" by simp
  then show ?thesis by (simp add: scope_new_tasks)
qed

lemma scope_inv_deliver: "scope_inv s \<Longrightarrow> scope_inv (deliver s)"
  by (auto simp: scope_inv_def deliver_eq run_tasks_callbacks run_tasks_next_scope
        run_tasks_ran dest: set_scope_new_tasks)

lemma sched_inv_step: "sched_inv s \<Longrightarrow> sched_inv (step i s)"
  by (cases i) (simp_all add: sched_inv_nextTick sched_inv_deliver)

lemma scope_inv_step: "scope_inv s \<Longrightarrow> scope_inv (step i s)"
  by (cases i) (simp_all add: scope_inv_nextTick scope_inv_deliver)

lemma sched_inv_run: "sched_inv s \<Longrightarrow> sched_inv (run ins s)"
  by (induction ins s rule: run.induct) (simp_all add: sched_inv_step)

lemma scope_inv_run: "scope_inv s \<Longrightarrow> scope_inv (run ins s)"
  by (induction ins s rule: run.induct) (simp_all add: scope_inv_step)

lemma sched_inv_reachable: "sched_inv (run ins (init e))"
  by (simp add: sched_inv_run sched_inv_init)

lemma scope_inv_reachable: "scope_inv (run ins (init e))"
  by (simp add: scope_inv_run scope_inv_init)

lemma sched_inv_turn: "sched_inv s \<Longrightarrow> sched_inv (turn cs s)"
  by (induction cs s rule: turn.induct) (simp_all add: sched_inv_nextTick)

lemma scope_inv_turn: "scope_inv s \<Longrightarrow> scope_inv (turn cs s)"
  by (induction cs s rule: turn.induct) (simp_all add: scope_inv_nextTick)

subsection \<open>A promise between its creation and its task\<close>

lemma resolve_fields [simp]:
  "resolve_var (resolve p v s) = resolve_var s"
  "next_scope (resolve p v s) = next_scope s"
  "length (promises (resolve p v s)) = length (promises s)"
  "promises (resolve p v s) =
     (if p < length (promises s) \<and> promises s ! p = Pending
      then (promises s)[p := resolution v] else promises s)"
  by (simp_all add: resolve_def Let_def)

lemma promise_inv_init: "promise_inv (init e)"
  by (simp add: promise_inv_def init_def base_state_def)

lemma promise_inv_nextTick: "promise_inv s \<Longrightarrow> promise_inv (snd (nextTick c v s))"
  by (auto simp: promise_inv_def less_Suc_eq)

lemma promise_inv_turn: "promise_inv s \<Longrightarrow> promise_inv (turn cs s)"
  by (induction cs s rule: turn.induct) (simp_all add: promise_inv_nextTick)

lemma promise_inv_trace [simp]: "promise_inv (s\<lparr>trace := tr\<rparr>) = promise_inv s"
  by (simp add: promise_inv_def)

lemma promise_inv_run_task: "promise_inv s \<Longrightarrow> promise_inv (run_task t s)"
  by (auto simp: run_task_eq Let_def promise_inv_turn split: option.splits)
     (auto simp: promise_inv_def)

lemma promise_inv_run_tasks: "promise_inv s \<Longrightarrow> promise_inv (run_tasks ts s)"
  by (induction ts s rule: run_tasks.induct) (simp_all add: promise_inv_run_task)

lemma promise_inv_deliver: "promise_inv s \<Longrightarrow> promise_inv (deliver s)"
proof -
  assume "promise_inv s"
  then have "promise_inv (s\<lparr>outstanding := outstanding s - 1, pending := False, callbacks := []\<rparr>)"
    by (simp add: promise_inv_def)
  then show ?thesis
    using \<open>promise_inv s\<close> by (simp add: deliver_eq promise_inv_run_tasks)
qed

lemma promise_inv_step: "promise_inv s \<Longrightarrow> promise_inv (step i s)"
  by (cases i) (simp_all add: promise_inv_nextTick promise_inv_deliver)

lemma promise_inv_run: "promise_inv s \<Longrightarrow> promise_inv (run ins s)"
  by (induction ins s rule: run.induct) (simp_all add: promise_inv_step)

lemma promise_inv_reachable: "promise_inv (run ins (init e))"
  by (simp add: promise_inv_run promise_inv_init)



lemma awaiting_trace [simp]: "awaiting sc0 p (s\<lparr>trace := tr\<rparr>) = awaiting sc0 p s"
  by (simp add: awaiting_def)






lemma settled_trace [simp]: "settled p w (s\<lparr>trace := tr\<rparr>) = settled p w s"
  by (simp add: settled_def)










subsection \<open>Every queued promise is pending\<close>

lemma run_task_resolve_var_old:
  "sc < next_scope s \<Longrightarrow> resolve_var (run_task t s) sc = resolve_var s sc"
  by (simp add: run_task_eq Let_def turn_resolve_var_old split: option.splits)

lemma run_tasks_resolve_var_old:
  "sc < next_scope s \<Longrightarrow> resolve_var (run_tasks ts s) sc = resolve_var s sc"
proof (induction ts s rule: run_tasks.induct)
  case (1 s)
  then show ?case by simp
next
  case (2 t ts s)
  then have "sc < next_scope (run_task t s)"
    by (simp add: run_task_next_scope)
  with 2 show ?case
    by (simp add: run_task_resolve_var_old)
qed



lemma queued_inv_trace [simp]: "queued_inv (s\<lparr>trace := tr\<rparr>) = queued_inv s"
  by (simp add: queued_inv_def)










lemma resolve_trace [simp]: "trace (resolve p v s) = trace s @ [Resolved p v]"
  by (simp add: resolve_def Let_def)

section \<open>The claims\<close>

text \<open>
  C1. From any state the module can reach, the tasks of the calls of one turn are
  appended to the queue in call order, and the flush that follows calls the whole queue
  in one go and in that order: what was queued before the turn first, then the turn's
  tasks in the order of the calls, each callback with its context. When that flush ends
  no task scheduled after the turn has run, and every task still queued is a later one.
\<close>

theorem turn_runs_in_call_order:
  "callbacks (turn calls (run ins (init e))) =
     callbacks (run ins (init e)) @ new_tasks (next_scope (run ins (init e))) calls \<and>
   ran (trace (deliver (turn calls (run ins (init e))))) =
     ran (trace (run ins (init e))) @ map t_scope (callbacks (run ins (init e))) @
     [next_scope (run ins (init e)) ..< next_scope (run ins (init e)) + length calls] \<and>
   invoked (trace (deliver (turn calls (run ins (init e))))) =
     invoked (trace (run ins (init e))) @
     concat (map task_invocation (callbacks (run ins (init e)))) @
     concat (map task_invocation (new_tasks (next_scope (run ins (init e))) calls)) \<and>
   (\<forall>sc \<in> set (ran (trace (deliver (turn calls (run ins (init e)))))).
      sc < next_scope (run ins (init e)) + length calls) \<and>
   (\<forall>t \<in> set (callbacks (deliver (turn calls (run ins (init e))))).
      next_scope (run ins (init e)) + length calls \<le> t_scope t)"
proof -
  define s where "s = run ins (init e)"
  define s1 where "s1 = turn calls s"
  have inv: "sched_inv s" "scope_inv s"
    by (simp_all add: s_def sched_inv_reachable scope_inv_reachable)
  then have inv1: "sched_inv s1" "scope_inv s1"
    by (simp_all add: s1_def sched_inv_turn scope_inv_turn)
  have 1: "callbacks s1 = callbacks s @ new_tasks (next_scope s) calls"
    by (simp add: s1_def turn_callbacks)
  have n1: "next_scope s1 = next_scope s + length calls"
    by (simp add: s1_def turn_next_scope)
  have "ran (trace s1) = ran (trace s)" and i1: "invoked (trace s1) = invoked (trace s)"
    by (simp_all add: s1_def turn_trace)
  moreover have "ran (trace (deliver s1)) = ran (trace s1) @ map t_scope (callbacks s1)"
    using inv1(1) by (auto simp: deliver_eq run_tasks_ran sched_inv_def split: if_splits)
  ultimately have 2: "ran (trace (deliver s1)) =
      ran (trace s) @ map t_scope (callbacks s) @ [next_scope s ..< next_scope s + length calls]"
    by (simp add: 1 scope_new_tasks)
  have "invoked (trace (deliver s1)) =
      invoked (trace s1) @ concat (map task_invocation (callbacks s1))"
    using inv1(1) by (auto simp: deliver_eq run_tasks_invoked sched_inv_def split: if_splits)
  then have 3: "invoked (trace (deliver s1)) =
      invoked (trace s) @ concat (map task_invocation (callbacks s)) @
      concat (map task_invocation (new_tasks (next_scope s) calls))"
    by (simp add: 1 i1)
  have 4: "\<forall>sc \<in> set (ran (trace (deliver s1))). sc < next_scope s + length calls"
    using inv(2) unfolding 2 by (auto simp: scope_inv_def)
  have 5: "\<forall>t \<in> set (callbacks (deliver s1)). next_scope s + length calls \<le> t_scope t"
  proof
    fix t assume t: "t \<in> set (callbacks (deliver s1))"
    show "next_scope s + length calls \<le> t_scope t"
    proof (cases "outstanding s1 = 0")
      case True
      with inv1(1) have "callbacks s1 = []" by (auto simp: sched_inv_def split: if_splits)
      with t True show ?thesis by (simp add: deliver_eq)
    next
      case False
      with t have "t \<in> set (new_tasks (next_scope s1) (concat (map task_calls (callbacks s1))))"
        by (simp add: deliver_eq run_tasks_callbacks)
      then show ?thesis using n1 by (auto dest: set_scope_new_tasks)
    qed
  qed
  from 1 2 3 4 5 show ?thesis
    unfolding s1_def s_def by blast
qed

theorem turn_runs_in_call_order_witness:
  "invoked (trace (deliver (turn [(Some fnA, Obj 0), (Some fnB, Obj 1)] (run [] (init env_modern))))) =
     [(1, Obj 0), (2, Obj 1)] \<and>
   ran (trace (deliver (turn [(Some fnA, Obj 0), (Some fnB, Obj 1)] (run [] (init env_modern))))) =
     [0, 1]"
proof -
  have "callbacks (run [] (init env_modern)) = []" and "next_scope (run [] (init env_modern)) = 0"
    and "ran (trace (run [] (init env_modern))) = []"
    and "invoked (trace (run [] (init env_modern))) = []"
    by (simp_all add: init_def base_state_def)
  with turn_runs_in_call_order [of "[(Some fnA, Obj 0), (Some fnB, Obj 1)]" "[]" env_modern]
  show ?thesis
    by (simp add: task_invocation_def fnA_def fnB_def del: turn.simps run.simps)
qed

text \<open>
  C2. \<^verbatim>\<open>flushCallbacks\<close> first sets \<open>pending\<close> to false, copies the queue, empties the
  live queue, and then calls the copied tasks one after another in the order of the
  copy: the state it ends in is the copied tasks folded, first to last, over the state
  with the flag reset and the queue empty, and every copied task is called once.
\<close>

theorem flushCallbacks_steps:
  "detach s = (callbacks s, s\<lparr>pending := False, callbacks := []\<rparr>) \<and>
   flushCallbacks s =
     foldl (\<lambda>s t. run_task t s) (s\<lparr>pending := False, callbacks := []\<rparr>) (callbacks s) \<and>
   ran (trace (flushCallbacks s)) = ran (trace s) @ map t_scope (callbacks s)"
  by (simp add: detach_def flushCallbacks_eq foldl_run_tasks run_tasks_ran)

theorem flushCallbacks_steps_witness:
  "ran (trace (flushCallbacks (turn [(Some fnA, Obj 0), (None, Undefined), (Some fnB, Obj 1)]
          (init env_modern)))) = [0, 1, 2]"
proof -
  define s where "s = turn [(Some fnA, Obj 0), (None, Undefined), (Some fnB, Obj 1)] (init env_modern)"
  have "map t_scope (callbacks s) = [0, 1, 2]" and "ran (trace s) = []"
    by (simp_all add: s_def turn_callbacks turn_trace init_def base_state_def del: turn.simps)
  with flushCallbacks_steps [of s, THEN conjunct2, THEN conjunct2]
  have "ran (trace (flushCallbacks s)) = [0, 1, 2]"
    by simp
  then show ?thesis by (simp only: s_def)
qed

text \<open>
  C3. In every state the module can reach, the tasks that are enqueued while a flush
  runs are exactly what the live queue holds when the flush ends; none of them has
  been called, in this flush or before; if there is one, \<open>pending\<close> is true again, the
  trigger was called once during the flush and one invocation is outstanding; and the
  next flush calls them, in order.
\<close>

theorem reentrant_tasks_deferred:
  "callbacks (deliver (run ins (init e))) =
     new_tasks (next_scope (run ins (init e)))
       (concat (map task_calls (callbacks (run ins (init e))))) \<and>
   (\<forall>t \<in> set (callbacks (deliver (run ins (init e)))).
      t_scope t \<notin> set (ran (trace (deliver (run ins (init e)))))) \<and>
   ran (trace (deliver (run ins (init e)))) =
     ran (trace (run ins (init e))) @ map t_scope (callbacks (run ins (init e))) \<and>
   pending (deliver (run ins (init e))) = (callbacks (deliver (run ins (init e))) \<noteq> []) \<and>
   outstanding (deliver (run ins (init e))) =
     (if callbacks (deliver (run ins (init e))) = [] then 0 else 1) \<and>
   triggers (trace (deliver (run ins (init e)))) =
     triggers (trace (run ins (init e))) +
     (if callbacks (deliver (run ins (init e))) = [] then 0 else 1) \<and>
   ran (trace (deliver (deliver (run ins (init e))))) =
     ran (trace (deliver (run ins (init e)))) @
     map t_scope (callbacks (deliver (run ins (init e))))"
proof -
  define s where "s = run ins (init e)"
  define s' where "s' = deliver s"
  have inv: "sched_inv s" "scope_inv s"
    by (simp_all add: s_def sched_inv_reachable scope_inv_reachable)
  then have inv': "sched_inv s'" "scope_inv s'"
    by (simp_all add: s'_def sched_inv_deliver scope_inv_deliver)
  have ran_deliver: "ran (trace (deliver u)) = ran (trace u) @ map t_scope (callbacks u)"
    if "sched_inv u" for u
    using that by (auto simp: deliver_eq run_tasks_ran sched_inv_def split: if_splits)
  have 1: "callbacks s' = new_tasks (next_scope s) (concat (map task_calls (callbacks s)))"
    using inv(1) by (auto simp: s'_def deliver_eq run_tasks_callbacks sched_inv_def split: if_splits)
  have 3: "ran (trace s') = ran (trace s) @ map t_scope (callbacks s)"
    unfolding s'_def using inv(1) by (rule ran_deliver)
  have 2: "\<forall>t \<in> set (callbacks s'). t_scope t \<notin> set (ran (trace s'))"
  proof
    fix t assume "t \<in> set (callbacks s')"
    then have "next_scope s \<le> t_scope t"
      unfolding 1 by (auto dest: set_scope_new_tasks)
    moreover have "\<forall>sc \<in> set (ran (trace s')). sc < next_scope s"
      using inv(2) unfolding 3 by (auto simp: scope_inv_def)
    ultimately show "t_scope t \<notin> set (ran (trace s'))" by auto
  qed
  have 4: "pending s' = (callbacks s' \<noteq> [])"
    and 5: "outstanding s' = (if callbacks s' = [] then 0 else 1)"
    using inv'(1) by (auto simp: sched_inv_def)
  have 6: "triggers (trace s') = triggers (trace s) + (if callbacks s' = [] then 0 else 1)"
    using inv(1)
    by (auto simp: s'_def deliver_eq run_tasks_triggers run_tasks_callbacks sched_inv_def
          split: if_splits)
  have 7: "ran (trace (deliver s')) = ran (trace s') @ map t_scope (callbacks s')"
    using inv'(1) by (rule ran_deliver)
  from 1 2 3 4 5 6 7 show ?thesis
    unfolding s'_def s_def by blast
qed

theorem reentrant_tasks_deferred_witness:
  "callbacks (deliver (run [Call (Some fnA_calls_C) (Obj 0)] (init env_modern))) =
     [\<lparr>t_cb = Some fnC, t_ctx = Undefined, t_scope = 1\<rparr>] \<and>
   ran (trace (deliver (run [Call (Some fnA_calls_C) (Obj 0)] (init env_modern)))) = [0] \<and>
   ran (trace (deliver (deliver (run [Call (Some fnA_calls_C) (Obj 0)] (init env_modern))))) =
     [0, 1]"
proof -
  define s where "s = run [Call (Some fnA_calls_C) (Obj 0)] (init env_modern)"
  have "callbacks s = [\<lparr>t_cb = Some fnA_calls_C, t_ctx = Obj 0, t_scope = 0\<rparr>]"
    and "next_scope s = 1" and "ran (trace s) = []"
    by (simp_all add: s_def init_def base_state_def)
  with reentrant_tasks_deferred [of "[Call (Some fnA_calls_C) (Obj 0)]" env_modern]
  have "callbacks (deliver s) = [\<lparr>t_cb = Some fnC, t_ctx = Undefined, t_scope = 1\<rparr>] \<and>
        ran (trace (deliver s)) = [0] \<and> ran (trace (deliver (deliver s))) = [0, 1]"
    unfolding s_def [symmetric]
    by (simp add: task_calls_def fnA_calls_C_def)
  then show ?thesis by (simp only: s_def)
qed

text \<open>
  C4. In every flush each thrown error is caught and reported once, with the context
  of its task and the tag \<open>nextTick\<close>; all tasks of the copy are called all the same,
  in order; and \<^verbatim>\<open>nextTick\<close> itself invokes no callback and reports nothing, so no
  error of a callback reaches its caller.
\<close>

theorem throwing_callback_isolated:
  "reported (trace (flushCallbacks s)) =
     reported (trace s) @ concat (map task_failure (callbacks s)) \<and>
   ran (trace (flushCallbacks s)) = ran (trace s) @ map t_scope (callbacks s) \<and>
   invoked (trace (flushCallbacks s)) =
     invoked (trace s) @ concat (map task_invocation (callbacks s)) \<and>
   invoked (trace (snd (nextTick c v s))) = invoked (trace s) \<and>
   reported (trace (snd (nextTick c v s))) = reported (trace s)"
  by (simp add: flushCallbacks_eq run_tasks_reported run_tasks_ran run_tasks_invoked)

theorem throwing_callback_isolated_witness:
  "reported (trace (flushCallbacks (turn [(Some fnThatThrows, Obj 5), (Some fnB, Undefined)]
      (init env_modern)))) = [(7, Obj 5, ''nextTick'')] \<and>
   invoked (trace (flushCallbacks (turn [(Some fnThatThrows, Obj 5), (Some fnB, Undefined)]
      (init env_modern)))) = [(4, Obj 5), (2, Undefined)]"
proof -
  define s where "s = turn [(Some fnThatThrows, Obj 5), (Some fnB, Undefined)] (init env_modern)"
  have "callbacks s = [\<lparr>t_cb = Some fnThatThrows, t_ctx = Obj 5, t_scope = 0\<rparr>,
                       \<lparr>t_cb = Some fnB, t_ctx = Undefined, t_scope = 1\<rparr>]"
    and "reported (trace s) = []" and "invoked (trace s) = []"
    by (simp_all add: s_def turn_callbacks turn_trace init_def base_state_def del: turn.simps)
  with throwing_callback_isolated [of s]
  have "reported (trace (flushCallbacks s)) = [(7, Obj 5, ''nextTick'')] \<and>
        invoked (trace (flushCallbacks s)) = [(4, Obj 5), (2, Undefined)]"
    by (simp add: task_failure_def task_invocation_def fnThatThrows_def fnB_def)
  then show ?thesis by (simp only: s_def)
qed

text \<open>
  C5. The first \<^verbatim>\<open>nextTick\<close> while \<open>pending\<close> is false sets the flag and calls the
  trigger; every further call before the next flush only appends its task. So a whole
  turn of calls, and likewise all the calls made during one flush, call the trigger once
  if a call was made and no flush was pending, and not at all otherwise; and in every
  state the module can reach, at most one invocation of \<^verbatim>\<open>flushCallbacks\<close> is
  outstanding, exactly when \<open>pending\<close> is true.
\<close>

theorem trigger_once_per_batch:
  "pending (snd (nextTick c v s)) \<and>
   callbacks (snd (nextTick c v s)) =
     callbacks s @ [\<lparr>t_cb = c, t_ctx = v, t_scope = next_scope s\<rparr>] \<and>
   triggers (trace (snd (nextTick c v s))) = triggers (trace s) + (if pending s then 0 else 1) \<and>
   triggers (trace (turn calls s)) =
     triggers (trace s) + (if pending s \<or> calls = [] then 0 else 1) \<and>
   triggers (trace (flushCallbacks s)) =
     triggers (trace s) + (if concat (map task_calls (callbacks s)) = [] then 0 else 1) \<and>
   outstanding (run ins (init e)) = (if pending (run ins (init e)) then 1 else 0) \<and>
   outstanding (run ins (init e)) \<le> 1"
proof -
  have "sched_inv (run ins (init e))"
    by (rule sched_inv_reachable)
  then have "outstanding (run ins (init e)) = (if pending (run ins (init e)) then 1 else 0)"
    by (simp add: sched_inv_def)
  then show ?thesis
    by (simp add: turn_trace flushCallbacks_eq run_tasks_triggers)
qed

theorem trigger_once_per_batch_witness:
  "triggers (trace (turn [(Some fnA, Undefined), (Some fnB, Undefined)] (init env_modern))) = 1 \<and>
   outstanding (run [Call (Some fnA) Undefined, Call (Some fnB) Undefined] (init env_modern)) = 1"
proof -
  have "\<not> pending (init env_modern)" and "triggers (trace (init env_modern)) = 0"
    by (simp_all add: init_def base_state_def)
  moreover have "pending (run [Call (Some fnA) Undefined, Call (Some fnB) Undefined] (init env_modern))"
    by simp
  ultimately show ?thesis
    using trigger_once_per_batch [of "Some fnA" Undefined "init env_modern"
            "[(Some fnA, Undefined), (Some fnB, Undefined)]"
            "[Call (Some fnA) Undefined, Call (Some fnB) Undefined]" env_modern]
    by (simp del: turn.simps run.simps)
qed




text \<open>
  C7 (amended). Without a Promise in the host, \<^verbatim>\<open>nextTick\<close> with no callback returns
  nothing, but the enqueue is not avoided: a task is appended to the queue, the flag is
  set, and when no flush was pending the trigger is called and one more invocation of
  \<^verbatim>\<open>flushCallbacks\<close> is outstanding. No promise is made and the task holds no resolve
  function. In the flush that takes the task, after the tasks queued before it and
  before those queued after it, its call does nothing: no callback is invoked, no
  promise resolved, nothing reported, and no variable of the module changes.
\<close>

theorem no_promise_no_callback:
  assumes "env_Promise (host s) = None"
  shows "fst (nextTick None ctx s) = RetUndefined \<and>
         callbacks (snd (nextTick None ctx s)) =
           callbacks s @ [\<lparr>t_cb = None, t_ctx = ctx, t_scope = next_scope s\<rparr>] \<and>
         pending (snd (nextTick None ctx s)) \<and>
         outstanding (snd (nextTick None ctx s)) = outstanding s + (if pending s then 0 else 1) \<and>
         triggers (trace (snd (nextTick None ctx s))) =
           triggers (trace s) + (if pending s then 0 else 1) \<and>
         promises (snd (nextTick None ctx s)) = promises s \<and>
         resolve_var (snd (nextTick None ctx s)) (next_scope s) = None \<and>
         run_task \<lparr>t_cb = None, t_ctx = ctx, t_scope = next_scope s\<rparr> (snd (nextTick None ctx s)) =
           (snd (nextTick None ctx s))
             \<lparr>trace := trace (snd (nextTick None ctx s)) @ [RunTask (next_scope s)]\<rparr> \<and>
         flushCallbacks (turn calls (snd (nextTick None ctx s))) =
           run_tasks (new_tasks (Suc (next_scope s)) calls)
             ((run_tasks (callbacks s) (snd (detach (turn calls (snd (nextTick None ctx s))))))
                \<lparr>trace :=
                   trace (run_tasks (callbacks s)
                            (snd (detach (turn calls (snd (nextTick None ctx s)))))) @
                   [RunTask (next_scope s)]\<rparr>)"
proof -
  define sc where "sc = next_scope s"
  define T where "T = \<lparr>t_cb = None, t_ctx = ctx, t_scope = sc\<rparr>"
  define s1 where "s1 = snd (nextTick None ctx s)"
  define s2 where "s2 = turn calls s1"
  define d where "d = run_tasks (callbacks s) (snd (detach s2))"
  have first: "fst (nextTick None ctx s) = RetUndefined \<and>
      callbacks s1 = callbacks s @ [T] \<and> pending s1 \<and>
      outstanding s1 = outstanding s + (if pending s then 0 else 1) \<and>
      triggers (trace s1) = triggers (trace s) + (if pending s then 0 else 1) \<and>
      promises s1 = promises s \<and> resolve_var s1 sc = None \<and>
      run_task T s1 = s1\<lparr>trace := trace s1 @ [RunTask sc]\<rparr>"
    using assms by (simp add: nextTick_ret run_task_def s1_def T_def sc_def)
  have q: "callbacks s2 = callbacks s @ T # new_tasks (Suc sc) calls"
    by (simp add: s2_def s1_def turn_callbacks T_def sc_def)
  have "sc < next_scope s1"
    by (simp add: s1_def sc_def)
  then have "resolve_var s2 sc = None"
    using first by (simp add: s2_def turn_resolve_var_old)
  moreover have "sc < next_scope (snd (detach s2))"
    by (simp add: detach_def s2_def s1_def turn_next_scope sc_def)
  ultimately have "resolve_var d sc = None"
    by (simp add: d_def run_tasks_resolve_var_old detach_def)
  then have "run_task T d = d\<lparr>trace := trace d @ [RunTask sc]\<rparr>"
    by (simp add: run_task_eq T_def)
  moreover have "flushCallbacks s2 = run_tasks (new_tasks (Suc sc) calls) (run_task T d)"
    by (simp add: flushCallbacks_eq q d_def detach_def run_tasks_append)
  ultimately have "flushCallbacks s2 =
      run_tasks (new_tasks (Suc sc) calls) (d\<lparr>trace := trace d @ [RunTask sc]\<rparr>)"
    by simp
  with first show ?thesis
    unfolding d_def s2_def s1_def T_def sc_def by blast
qed

theorem no_promise_no_callback_witness:
  "env_Promise (host (init env_bare)) = None \<and>
   fst (nextTick None (Obj 3) (init env_bare)) = RetUndefined \<and>
   callbacks (snd (nextTick None (Obj 3) (init env_bare))) =
     [\<lparr>t_cb = None, t_ctx = Obj 3, t_scope = 0\<rparr>] \<and>
   pending (snd (nextTick None (Obj 3) (init env_bare))) \<and>
   outstanding (snd (nextTick None (Obj 3) (init env_bare))) = 1 \<and>
   trace (flushCallbacks (turn [] (snd (nextTick None (Obj 3) (init env_bare))))) =
     [TimerFunc, RunTask 0]"
proof -
  have h: "env_Promise (host (init env_bare)) = None"
    by (simp add: init_def base_state_def env_bare_def)
  have n: "next_scope (init env_bare) = 0" "callbacks (init env_bare) = []"
    "\<not> pending (init env_bare)" "trace (init env_bare) = []" "outstanding (init env_bare) = 0"
    by (simp_all add: init_def base_state_def env_bare_def)
  show ?thesis
    using h no_promise_no_callback [OF h, of "Obj 3" "[]"]
    by (simp add: n detach_def)
qed

theorem no_promise_still_enqueues_counterexample:
  "env_Promise (host (init env_bare)) = None \<and>
   callbacks (snd (nextTick None Undefined (init env_bare))) \<noteq> callbacks (init env_bare) \<and>
   triggers (trace (snd (nextTick None Undefined (init env_bare)))) = 1"
  by (simp add: init_def base_state_def env_bare_def)

text \<open>
  C8. The strategy is chosen once, when the module is initialised: it is the first
  available entry of the fixed order native Promise, MutationObserver (not on IE, and
  native or the PhantomJS/iOS 7 constructor), native setImmediate, setTimeout. The last
  entry is always taken as available, so there is always a choice, and neither
  \<^verbatim>\<open>nextTick\<close> nor \<^verbatim>\<open>flushCallbacks\<close> nor any run of the module changes it.
\<close>

theorem timerFunc_selected_once:
  "first_available (preference e) = Some (timerFunc (init e)) \<and>
   timerFunc (snd (nextTick c v s)) = timerFunc s \<and>
   timerFunc (flushCallbacks s) = timerFunc s \<and>
   timerFunc (run ins (init e)) = timerFunc (init e)"
proof -
  have "first_available (preference e) = Some (timerFunc (init e))"
    by (simp add: preference_def init_def base_state_def isNative_def promise_available_def
          mutation_observer_available_def setImmediate_available_def
          split: option.splits)
  then show ?thesis
    by (simp add: flushCallbacks_timerFunc run_timerFunc)
qed

theorem timerFunc_selected_once_witness:
  "timerFunc (init env_modern) = UsePromise \<and>
   timerFunc (init env_phantom) = UseMutationObserver \<and>
   timerFunc (init env_bare) = UseSetTimeout \<and>
   timerFunc (run [Call None Undefined, Deliver] (init env_phantom)) = UseMutationObserver"
  using timerFunc_selected_once [of env_modern]
        timerFunc_selected_once [of env_phantom None Undefined "init env_phantom" "[Call None Undefined, Deliver]"]
        timerFunc_selected_once [of env_bare]
  by (simp add: preference_def promise_available_def mutation_observer_available_def
        setImmediate_available_def env_modern_def env_phantom_def env_bare_def)

text \<open>
  C9. The published flag \<^verbatim>\<open>isUsingMicroTask\<close> is true exactly when the chosen strategy
  is the Promise or the MutationObserver one, false exactly when it is setImmediate or
  setTimeout, and it stays so through every run of the module.
\<close>

theorem isUsingMicroTask_iff:
  "isUsingMicroTask (init e) = microtask_granular (timerFunc (init e)) \<and>
   isUsingMicroTask (init e) = (timerFunc (init e) \<in> {UsePromise, UseMutationObserver}) \<and>
   (\<not> isUsingMicroTask (init e)) = (timerFunc (init e) \<in> {UseSetImmediate, UseSetTimeout}) \<and>
   isUsingMicroTask (run ins (init e)) = microtask_granular (timerFunc (run ins (init e)))"
proof -
  have "isUsingMicroTask (init e) = microtask_granular (timerFunc (init e))"
    by (simp add: init_def base_state_def microtask_granular_def)
  moreover have "microtask_granular st = (st \<in> {UsePromise, UseMutationObserver})"
    and "(\<not> microtask_granular st) = (st \<in> {UseSetImmediate, UseSetTimeout})" for st
    by (cases st; simp add: microtask_granular_def)+
  ultimately show ?thesis
    by (simp add: run_isUsingMicroTask run_timerFunc)
qed

theorem isUsingMicroTask_iff_witness:
  "isUsingMicroTask (init env_modern) \<and>
   \<not> isUsingMicroTask (run [Call None Undefined, Deliver] (init env_bare))"
  using isUsingMicroTask_iff [of env_modern "[]"]
        isUsingMicroTask_iff [of env_bare "[Call None Undefined, Deliver]"]
  by (simp add: microtask_granular_def run_timerFunc init_def base_state_def isNative_def
        env_modern_def env_bare_def del: run.simps)

text \<open>
  C10. Once \<^verbatim>\<open>flushCallbacks\<close> has taken its copy, and before any copied task runs,
  the live queue is empty and \<open>pending\<close> is false, whatever the tasks are; a
  \<^verbatim>\<open>nextTick\<close> there calls the trigger afresh. On an empty queue
  \<^verbatim>\<open>flushCallbacks\<close> changes nothing but the flag, which it sets to false.
\<close>

theorem flushCallbacks_detached:
  "callbacks (snd (detach s)) = [] \<and> \<not> pending (snd (detach s)) \<and>
   fst (detach s) = callbacks s \<and>
   flushCallbacks s = for_loop 0 (fst (detach s)) (snd (detach s)) \<and>
   triggers (trace (snd (nextTick c v (snd (detach s))))) = Suc (triggers (trace s)) \<and>
   (callbacks s = [] \<longrightarrow> flushCallbacks s = s\<lparr>pending := False\<rparr>)"
  by (simp add: detach_def flushCallbacks_def for_loop.simps [of 0 "[]"])

theorem flushCallbacks_detached_witness:
  "callbacks (init env_bare) = [] \<and>
   flushCallbacks (init env_bare) = (init env_bare)\<lparr>pending := False\<rparr> \<and>
   flushCallbacks (init env_bare) = init env_bare"
proof -
  have h: "callbacks (init env_bare) = []" and p: "(init env_bare)\<lparr>pending := False\<rparr> = init env_bare"
    by (simp_all add: init_def base_state_def)
  from flushCallbacks_detached [of "init env_bare"] h
  have "flushCallbacks (init env_bare) = (init env_bare)\<lparr>pending := False\<rparr>"
    by blast
  with h p show ?thesis by simp
qed

end
